theory Spec2Isabelle
  imports Complex_Main "HOL-Library.AList" "HOL-Library.Tree"
begin

section \<open>Python exceptions\<close>

text \<open>
  The exceptions the two programs can end with. A function that can raise returns a sum, with
  \<open>Inl\<close> for the exception.
\<close>

datatype py_error = IndexError | LinAlgError | ValueError | OverflowError | ZeroDivisionError

section \<open>Ion Flux Relabelling: parents in a post-order labelled perfect tree\<close>

text \<open>
  Source: \<^verbatim>\<open>src/2.5_Ion_Flux_Relabelling.py\<close>, function \<^verbatim>\<open>solution(h, q)\<close> with its
  nested procedure \<^verbatim>\<open>dfs(subtreeSize, offset)\<close>.

  Python integers are unbounded, so labels, sizes and offsets are \<^typ>\<open>int\<close>.
  \<^verbatim>\<open>parentLabels\<close> is an \<^verbatim>\<open>OrderedDict\<close>: an association list whose keys are distinct and
  keep the position of their first insertion. Assigning to a key that is present replaces
  its entry in place, assigning to a new key appends it, which is what
  \<^const>\<open>AList.update\<close> does.
\<close>

type_synonym ordered_dict = "(int \<times> int) list"

definition od_contains :: "ordered_dict \<Rightarrow> int \<Rightarrow> bool" where
  "od_contains d k = (k \<in> set (map fst d))"

definition od_get :: "ordered_dict \<Rightarrow> int \<Rightarrow> int option" where
  "od_get d k = map_of d k"

definition od_set :: "ordered_dict \<Rightarrow> int \<Rightarrow> int \<Rightarrow> ordered_dict" where
  "od_set d k v = AList.update k v d"

text \<open>\<^verbatim>\<open>OrderedDict((converter, -1) for converter in q)\<close>: the pairs are inserted left to right.\<close>

definition od_init :: "int list \<Rightarrow> ordered_dict" where
  "od_init q = fold (\<lambda>converter d. od_set d converter (- 1)) q []"

text \<open>\<^verbatim>\<open>list(parentLabels.values())\<close>\<close>

definition od_values :: "ordered_dict \<Rightarrow> int list" where
  "od_values d = map snd d"

text \<open>
  One of the two guarded assignments of \<^verbatim>\<open>dfs\<close>:
  \<^verbatim>\<open>if node in parentLabels and parentLabels[node] == -1: parentLabels[node] = parentNode\<close>.
\<close>

definition set_on_first_visit :: "int \<Rightarrow> int \<Rightarrow> ordered_dict \<Rightarrow> ordered_dict" where
  "set_on_first_visit node parentNode parentLabels =
     (if od_contains parentLabels node \<and> od_get parentLabels node = Some (- 1)
      then od_set parentLabels node parentNode else parentLabels)"

text \<open>
  \<^verbatim>\<open>dfs\<close> mutates the dictionary of the enclosing call; here the dictionary is passed in
  and returned. \<^verbatim>\<open>subtreeSize >> 1\<close> is \<^term>\<open>drop_bit 1 subtreeSize\<close>. The recursion
  stops as soon as the size is below 1, and a size of at least 1 is halved by the shift, which
  is the termination argument.
\<close>

function dfs :: "int \<Rightarrow> int \<Rightarrow> ordered_dict \<Rightarrow> ordered_dict" where
  "dfs subtreeSize offset parentLabels =
     (if subtreeSize < 1 then parentLabels
      else
        let subtreeSize' = drop_bit 1 subtreeSize;
            leftNode = offset + subtreeSize';
            rightNode = leftNode + subtreeSize';
            parentNode = rightNode + 1;
            parentLabels1 = set_on_first_visit leftNode parentNode parentLabels;
            parentLabels2 = set_on_first_visit rightNode parentNode parentLabels1;
            parentLabels3 = dfs subtreeSize' offset parentLabels2
        in dfs subtreeSize' leftNode parentLabels3)"
  by pat_completeness auto
termination
  by (relation "measure (\<lambda>(s, off, pl). nat s)") (auto simp: drop_bit_eq_div)

declare dfs.simps [simp del]

text \<open>
  \<^verbatim>\<open>solution(h, q)\<close>. The first statement is \<^verbatim>\<open>maxSize = (2**h) - 1\<close>. For \<open>h \<ge> 0\<close>
  this is the integer \<open>2 ^ h - 1\<close>. For a negative \<open>h\<close> Python computes the power in
  floating point and first converts the exponent to a double, rounding to nearest: the
  conversion raises \<^verbatim>\<open>OverflowError\<close> when \<open>h\<close> rounds to \<open>- (2 ^ 1024)\<close>, that is for
  \<open>h \<le> - (2 ^ 1024 - 2 ^ 970)\<close>. For every other negative \<open>h\<close> the power is a float from 0
  to 1, so \<^verbatim>\<open>maxSize\<close> is below 1 and the first call of \<^verbatim>\<open>dfs\<close> returns at its first
  test, leaving the dictionary as initialised; that comparison is all the model keeps of the
  float.
\<close>

definition float_overflow_bound :: int where
  "float_overflow_bound = 2 ^ 1024 - 2 ^ 970"

definition ion_flux_solution :: "int \<Rightarrow> int list \<Rightarrow> py_error + int list" where
  "ion_flux_solution h q =
     (if h \<le> - float_overflow_bound then Inl OverflowError
      else
        let parentLabels = od_init q in
        if h < 0 then Inr (od_values parentLabels)
        else Inr (od_values (dfs (2 ^ nat h - 1) 0 parentLabels)))"

subsection \<open>The tree the labels refer to\<close>

text \<open>
  The reference the program is compared with follows the problem statement, not the code:
  a perfect binary tree of height \<open>h\<close> whose nodes are numbered in the order of a post-order
  traversal, starting at 1. \<open>label_postorder\<close> walks a tree left subtree first, then
  right subtree, then the node, and hands the last number used from one step to the next.
\<close>

fun perfect_tree :: "nat \<Rightarrow> unit tree" where
  "perfect_tree 0 = Leaf"
| "perfect_tree (Suc k) = Node (perfect_tree k) () (perfect_tree k)"

fun label_postorder :: "'a tree \<Rightarrow> int \<Rightarrow> int tree \<times> int" where
  "label_postorder Leaf n = (Leaf, n)"
| "label_postorder (Node l _ r) n =
     (let (l', n1) = label_postorder l n;
          (r', n2) = label_postorder r n1
      in (Node l' (n2 + 1) r', n2 + 1))"

definition converter_tree :: "nat \<Rightarrow> int tree" where
  "converter_tree h = fst (label_postorder (perfect_tree h) 0)"

fun root_label :: "'a tree \<Rightarrow> 'a option" where
  "root_label Leaf = None"
| "root_label (Node _ a _) = Some a"

text \<open>The label of the node that has a child labelled \<open>x\<close>, if there is one.\<close>

fun parent_in :: "int tree \<Rightarrow> int \<Rightarrow> int option" where
  "parent_in Leaf x = None"
| "parent_in (Node l a r) x =
     (if root_label l = Some x \<or> root_label r = Some x then Some a
      else case parent_in l x of Some p \<Rightarrow> Some p | None \<Rightarrow> parent_in r x)"

text \<open>The labels of the left and right child of the node labelled \<open>p\<close>, if it has children.\<close>

fun children_in :: "int tree \<Rightarrow> int \<Rightarrow> (int \<times> int) option" where
  "children_in Leaf p = None"
| "children_in (Node l a r) p =
     (if a = p then
        (case (root_label l, root_label r) of
           (Some x, Some y) \<Rightarrow> Some (x, y)
         | _ \<Rightarrow> None)
      else case children_in l p of Some c \<Rightarrow> Some c | None \<Rightarrow> children_in r p)"

text \<open>The distinct elements of a list, each at the place of its first occurrence.\<close>

fun first_occurrences :: "'a list \<Rightarrow> 'a list" where
  "first_occurrences [] = []"
| "first_occurrences (x # xs) = x # filter (\<lambda>y. y \<noteq> x) (first_occurrences xs)"

text \<open>
  Two auxiliary notions for the proofs. \<open>ptree k n\<close> is the perfect tree of height \<open>k\<close>
  numbered in post-order after \<open>n\<close> numbers have been used. \<open>hit k off key\<close> is what one call
  \<open>dfs (2 ^ k - 1) off\<close> leaves in an entry \<open>key\<close> that held \<open>-1\<close>: the parent of \<open>key\<close> in
  that subtree, and otherwise \<open>off + 1\<close> for the key \<open>off\<close> itself, which the call for the
  leftmost leaf (size 1, where \<^verbatim>\<open>leftNode = rightNode = offset\<close>) matches.
\<close>

definition ptree :: "nat \<Rightarrow> int \<Rightarrow> int tree" where
  "ptree k n = fst (label_postorder (perfect_tree k) n)"

definition hit :: "nat \<Rightarrow> int \<Rightarrow> int \<Rightarrow> int" where
  "hit k off key =
     (case parent_in (ptree k off) key of
        Some p \<Rightarrow> p
      | None \<Rightarrow> if 0 < k \<and> key = off then off + 1 else - 1)"

section \<open>Doomsday Fuel: absorption probabilities of a Markov chain\<close>

text \<open>
  Source: \<^verbatim>\<open>src/3.1_Doomsday_Fuel.py\<close>, functions \<^verbatim>\<open>solution\<close>, \<^verbatim>\<open>split_matrix\<close>,
  \<^verbatim>\<open>find_f_submatrix\<close> and \<^verbatim>\<open>probabilities\<close>.

  The program computes with IEEE doubles through \<^verbatim>\<open>float\<close>, \<^verbatim>\<open>numpy\<close> and
  \<^verbatim>\<open>fractions.Fraction\<close>. None of these is part of the repository, and their rounding is
  not modelled: the calls into them are the fields of a record \<open>'f numlib\<close>, for an arbitrary
  type \<open>'f\<close> of float values, and the program is a function of that record. Every library
  call may raise, so each field that can returns a sum with \<open>Inl\<close> for the exception. What is
  proved about \<open>doomsday_fuel_solution lib\<close> for every \<open>lib\<close> holds for the libraries the
  program runs with.
\<close>

record 'f numlib =
  float_of_int :: "int \<Rightarrow> py_error + 'f"
  true_div :: "int \<Rightarrow> 'f \<Rightarrow> py_error + 'f"
  np_identity :: "nat \<Rightarrow> 'f list list"
  np_subtract :: "'f list list \<Rightarrow> 'f list list \<Rightarrow> py_error + 'f list list"
  np_linalg_inv :: "'f list list \<Rightarrow> py_error + 'f list list"
  np_dot :: "'f list list \<Rightarrow> 'f list list \<Rightarrow> py_error + 'f list list"
  limit_denominator :: "'f \<Rightarrow> py_error + int \<times> int"
  int_true_div :: "int \<Rightarrow> int \<Rightarrow> py_error + int"

text \<open>
  The fields stand for: \<^verbatim>\<open>float(n)\<close>; \<^verbatim>\<open>n / total\<close> with an integer \<open>n\<close> and a float
  \<open>total\<close>; \<^verbatim>\<open>np.identity\<close>; \<^verbatim>\<open>np.subtract\<close>; \<^verbatim>\<open>np.linalg.inv\<close>; \<^verbatim>\<open>np.dot\<close>;
  \<^verbatim>\<open>Fraction(x).limit_denominator()\<close> as the pair of numerator and denominator; and
  \<^verbatim>\<open>int(lcd / d)\<close> for two integers.

  The set \<^verbatim>\<open>absorbing_states\<close> of \<^verbatim>\<open>split_matrix\<close> is the list of its members.
\<close>

definition absorbing_states :: "int list list \<Rightarrow> nat list" where
  "absorbing_states m = filter (\<lambda>row. sum_list (m ! row) = 0) [0..<length m]"

text \<open>
  The inner loop of \<^verbatim>\<open>split_matrix\<close> over \<^verbatim>\<open>col in range(num_of_columns)\<close>; reading
  \<^verbatim>\<open>m[row][col]\<close> beyond the end of a row raises \<^verbatim>\<open>IndexError\<close>.
\<close>

fun split_cols ::
  "'f numlib \<Rightarrow> nat list \<Rightarrow> int list \<Rightarrow> 'f \<Rightarrow> nat list \<Rightarrow> py_error + 'f list \<times> 'f list" where
  "split_cols lib absorbing r total_transitions [] = Inr ([], [])"
| "split_cols lib absorbing r total_transitions (col # cols) =
     (if length r \<le> col then Inl IndexError
      else case true_div lib (r ! col) total_transitions of
        Inl e \<Rightarrow> Inl e
      | Inr x \<Rightarrow>
          (case split_cols lib absorbing r total_transitions cols of
             Inl e \<Rightarrow> Inl e
           | Inr (temp_r, temp_q) \<Rightarrow>
               if col \<in> set absorbing then Inr (x # temp_r, temp_q)
               else Inr (temp_r, x # temp_q)))"

text \<open>The outer loop of \<^verbatim>\<open>split_matrix\<close> over \<^verbatim>\<open>row in range(num_of_rows)\<close>.\<close>

fun split_rows ::
  "'f numlib \<Rightarrow> int list list \<Rightarrow> nat list \<Rightarrow> nat list
     \<Rightarrow> py_error + 'f list list \<times> 'f list list" where
  "split_rows lib m absorbing [] = Inr ([], [])"
| "split_rows lib m absorbing (row # rows) =
     (if row \<in> set absorbing then split_rows lib m absorbing rows
      else case float_of_int lib (sum_list (m ! row)) of
        Inl e \<Rightarrow> Inl e
      | Inr total_transitions \<Rightarrow>
          (case split_cols lib absorbing (m ! row) total_transitions [0..<length m] of
             Inl e \<Rightarrow> Inl e
           | Inr (temp_r, temp_q) \<Rightarrow>
               (case split_rows lib m absorbing rows of
                  Inl e \<Rightarrow> Inl e
                | Inr (r_submatrix, q_submatrix) \<Rightarrow>
                    Inr (temp_r # r_submatrix, temp_q # q_submatrix))))"

definition split_matrix ::
  "'f numlib \<Rightarrow> int list list \<Rightarrow> py_error + 'f list list \<times> 'f list list" where
  "split_matrix lib m = split_rows lib m (absorbing_states m) [0..<length m]"

definition find_f_submatrix :: "'f numlib \<Rightarrow> 'f list list \<Rightarrow> py_error + 'f list list" where
  "find_f_submatrix lib q_submatrix =
     (let size_of_q = length q_submatrix;
          identity_matrix = np_identity lib size_of_q
      in case np_subtract lib identity_matrix q_submatrix of
           Inl e \<Rightarrow> Inl e
         | Inr difference_between_identity_and_q \<Rightarrow>
             np_linalg_inv lib difference_between_identity_and_q)"

text \<open>The first loop of \<^verbatim>\<open>probabilities\<close>: one fraction per entry of the row.\<close>

fun to_fractions :: "'f numlib \<Rightarrow> 'f list \<Rightarrow> py_error + (int \<times> int) list" where
  "to_fractions lib [] = Inr []"
| "to_fractions lib (num # row) =
     (case limit_denominator lib num of
        Inl e \<Rightarrow> Inl e
      | Inr fraction \<Rightarrow>
          (case to_fractions lib row of
             Inl e \<Rightarrow> Inl e
           | Inr fractions \<Rightarrow> Inr (fraction # fractions)))"

text \<open>
  The \<^verbatim>\<open>while temp_denom:\<close> loop. Python's \<^verbatim>\<open>%\<close> on integers takes the sign of the
  divisor, as \<open>mod\<close> on \<^typ>\<open>int\<close> does, so the absolute value of the second component
  decreases.
\<close>

function euclid_loop :: "int \<Rightarrow> int \<Rightarrow> int" where
  "euclid_loop temp_lcd temp_denom =
     (if temp_denom \<noteq> 0 then euclid_loop temp_denom (temp_lcd mod temp_denom) else temp_lcd)"
  by pat_completeness auto
termination
  by (relation "measure (\<lambda>(a, b). nat \<bar>b\<bar>)") (auto simp: abs_mod_less)

text \<open>The loop \<^verbatim>\<open>for denom in denominators\<close>; \<^verbatim>\<open>//\<close> by zero raises.\<close>

fun lcd_loop :: "int \<Rightarrow> int list \<Rightarrow> py_error + int" where
  "lcd_loop lcd [] = Inr lcd"
| "lcd_loop lcd (denom # denominators) =
     (let temp_lcd = euclid_loop lcd denom
      in if temp_lcd = 0 then Inl ZeroDivisionError
         else lcd_loop (lcd div temp_lcd * denom) denominators)"

text \<open>The last loop of \<^verbatim>\<open>probabilities\<close>, which scales each numerator.\<close>

fun scale_loop :: "'f numlib \<Rightarrow> int \<Rightarrow> (int \<times> int) list \<Rightarrow> py_error + int list" where
  "scale_loop lib lcd [] = Inr []"
| "scale_loop lib lcd ((numerator, denominator) # fractions) =
     (case int_true_div lib lcd denominator of
        Inl e \<Rightarrow> Inl e
      | Inr factor \<Rightarrow>
          (case scale_loop lib lcd fractions of
             Inl e \<Rightarrow> Inl e
           | Inr scaled \<Rightarrow> Inr (numerator * factor # scaled)))"

definition probabilities :: "'f numlib \<Rightarrow> 'f list \<Rightarrow> py_error + int list" where
  "probabilities lib row =
     (case to_fractions lib row of
        Inl e \<Rightarrow> Inl e
      | Inr fractions \<Rightarrow>
          (case lcd_loop 1 (map snd fractions) of
             Inl e \<Rightarrow> Inl e
           | Inr lcd \<Rightarrow>
               (case scale_loop lib lcd fractions of
                  Inl e \<Rightarrow> Inl e
                | Inr probabilities_for_each_state \<Rightarrow>
                    Inr (probabilities_for_each_state @ [lcd]))))"

text \<open>
  \<^verbatim>\<open>solution(m)\<close>. The test \<^verbatim>\<open>len(m) <= 1 or sum(m[0]) == 0\<close> is evaluated left to right,
  so \<^verbatim>\<open>m[0]\<close> is only read when there are at least two rows.
\<close>

definition doomsday_fuel_solution :: "'f numlib \<Rightarrow> int list list \<Rightarrow> py_error + int list" where
  "doomsday_fuel_solution lib m =
     (if length m \<le> 1 then Inr [1, 1]
      else if sum_list (m ! 0) = 0 then Inr [1, 1]
      else case split_matrix lib m of
        Inl e \<Rightarrow> Inl e
      | Inr (r_submatrix, q_submatrix) \<Rightarrow>
          (case find_f_submatrix lib q_submatrix of
             Inl e \<Rightarrow> Inl e
           | Inr f_submatrix \<Rightarrow>
               (case np_dot lib f_submatrix r_submatrix of
                  Inl e \<Rightarrow> Inl e
                | Inr fr_submatrix \<Rightarrow>
                    (case fr_submatrix of
                       [] \<Rightarrow> Inl IndexError
                     | row0 # _ \<Rightarrow> probabilities lib row0))))"

subsection \<open>A library of exact rationals\<close>

text \<open>
  One instance of the record, over \<^typ>\<open>rat\<close> and without rounding: division and
  subtraction are exact, the inverse is computed by Gauss-Jordan elimination and fails on a
  singular matrix, a rational is returned as its reduced fraction whatever its denominator
  (\<^verbatim>\<open>limit_denominator()\<close> keeps denominators up to \<open>10 ^ 6\<close> only), and \<^verbatim>\<open>int(lcd / d)\<close>
  is the exact quotient (the program divides in floating point). It makes the model
  executable on concrete matrices. It is not the library the program runs with, and it
  agrees with it only where no rounding and no large denominator is involved.
\<close>

fun gauss_jordan :: "nat list \<Rightarrow> rat list list \<Rightarrow> rat list list \<Rightarrow> py_error + rat list list" where
  "gauss_jordan [] reduced pending = Inr reduced"
| "gauss_jordan (j # js) reduced pending =
     (case filter (\<lambda>r. r ! j \<noteq> 0) pending of
        [] \<Rightarrow> Inl LinAlgError
      | p # _ \<Rightarrow>
          (let pivot = map (\<lambda>x. x / (p ! j)) p;
               eliminate = (\<lambda>r. map2 (\<lambda>x y. x - (r ! j) * y) r pivot)
           in gauss_jordan js (map eliminate reduced @ [pivot])
                (map eliminate (remove1 p pending))))"

definition exact_identity :: "nat \<Rightarrow> rat list list" where
  "exact_identity n = map (\<lambda>i. map (\<lambda>j. if i = j then 1 else 0) [0..<n]) [0..<n]"

definition exact_inv :: "rat list list \<Rightarrow> py_error + rat list list" where
  "exact_inv a =
     (let n = length a
      in case gauss_jordan [0..<n] [] (map2 (@) a (exact_identity n)) of
           Inl e \<Rightarrow> Inl e
         | Inr rows \<Rightarrow> Inr (map (drop n) rows))"

definition exact_dot :: "rat list list \<Rightarrow> rat list list \<Rightarrow> rat list list" where
  "exact_dot a b =
     map (\<lambda>row. map (\<lambda>j. sum_list (map2 (\<lambda>x brow. x * brow ! j) row b))
                  [0..<(case b of [] \<Rightarrow> 0 | b0 # _ \<Rightarrow> length b0)]) a"

definition exact_lib :: "rat numlib" where
  "exact_lib = \<lparr>
     float_of_int = (\<lambda>n. Inr (of_int n)),
     true_div = (\<lambda>n t. if t = 0 then Inl ZeroDivisionError else Inr (of_int n / t)),
     np_identity = exact_identity,
     np_subtract = (\<lambda>a b. Inr (map2 (map2 (-)) a b)),
     np_linalg_inv = exact_inv,
     np_dot = (\<lambda>a b. Inr (exact_dot a b)),
     limit_denominator = (\<lambda>x. Inr (quotient_of x)),
     int_true_div = (\<lambda>a b. if b = 0 then Inl ZeroDivisionError else Inr (a div b)) \<rparr>"

subsection \<open>Chains and shapes\<close>

text \<open>
  The vocabulary of the specification: a state is terminal when its row sums to zero and
  transient otherwise; there is a transition from \<open>i\<close> to \<open>j\<close> when the count \<open>m[i][j]\<close> is
  positive; a chain is non-absorbing when some transient state has no path to any terminal
  state. A matrix is square when every row is as long as the matrix has rows.
\<close>

definition terminal_state :: "int list list \<Rightarrow> nat \<Rightarrow> bool" where
  "terminal_state m i = (sum_list (m ! i) = 0)"

definition transition :: "int list list \<Rightarrow> nat \<Rightarrow> nat \<Rightarrow> bool" where
  "transition m i j = (i < length m \<and> j < length m \<and> j < length (m ! i) \<and> 0 < m ! i ! j)"

inductive path :: "int list list \<Rightarrow> nat \<Rightarrow> nat \<Rightarrow> bool" for m :: "int list list" where
  path_refl: "path m i i"
| path_step: "transition m i j \<Longrightarrow> path m j k \<Longrightarrow> path m i k"

definition non_absorbing :: "int list list \<Rightarrow> bool" where
  "non_absorbing m =
     (\<exists>i < length m. \<not> terminal_state m i
        \<and> \<not> (\<exists>j < length m. terminal_state m j \<and> path m i j))"

definition square_matrix :: "int list list \<Rightarrow> bool" where
  "square_matrix m = list_all (\<lambda>row. length row = length m) m"

text \<open>
  Every row has at least as many entries as the matrix has rows, so that no \<^verbatim>\<open>m[row][col]\<close>
  with \<^verbatim>\<open>col < len(m)\<close> is out of range. Square matrices are of this kind, and so are
  matrices with surplus columns.
\<close>

definition rows_cover_columns :: "int list list \<Rightarrow> bool" where
  "rows_cover_columns m = list_all (\<lambda>row. length m \<le> length row) m"

subsection \<open>Where an exception comes from\<close>

text \<open>
  \<open>library_raises lib e\<close>: some call into the numeric library raises \<open>e\<close>.
  \<open>library_caused lib e\<close>: the exception \<open>e\<close> is raised by a library call, or it is the
  \<^verbatim>\<open>IndexError\<close> of \<^verbatim>\<open>fr_submatrix[0]\<close> on a product that the library returned without
  rows, or the \<^verbatim>\<open>ZeroDivisionError\<close> of \<^verbatim>\<open>lcd // temp_lcd\<close> after the library returned a
  fraction with denominator 0.
\<close>

definition library_raises :: "'f numlib \<Rightarrow> py_error \<Rightarrow> bool" where
  "library_raises lib e =
     ((\<exists>n. float_of_int lib n = Inl e)
      \<or> (\<exists>n t. true_div lib n t = Inl e)
      \<or> (\<exists>a b. np_subtract lib a b = Inl e)
      \<or> (\<exists>a. np_linalg_inv lib a = Inl e)
      \<or> (\<exists>a b. np_dot lib a b = Inl e)
      \<or> (\<exists>x. limit_denominator lib x = Inl e)
      \<or> (\<exists>a b. int_true_div lib a b = Inl e))"

definition library_caused :: "'f numlib \<Rightarrow> py_error \<Rightarrow> bool" where
  "library_caused lib e =
     (library_raises lib e
      \<or> (e = IndexError \<and> (\<exists>a b. np_dot lib a b = Inr []))
      \<or> (e = ZeroDivisionError \<and> (\<exists>x n. limit_denominator lib x = Inr (n, 0))))"

section \<open>Proofs\<close>

subsection \<open>The post-order labelling\<close>

lemma label_postorder_counter: "snd (label_postorder t n) = n + int (size t)"
  by (induction t arbitrary: n) (auto simp: split_beta Let_def)

lemma upto_split3:
  fixes n :: int
  assumes "0 \<le> a" "0 \<le> b"
  shows "[n + 1 .. n + a + b + 1] = [n + 1 .. n + a] @ [n + a + 1 .. n + a + b] @ [n + a + b + 1]"
proof -
  have "[n + 1 .. n + a + b + 1] = [n + 1 .. n + a + b] @ [n + a + b + 1]"
    using assms by (simp add: upto_rec2)
  moreover have "[n + 1 .. n + a + b] = [n + 1 .. n + a] @ [n + a + 1 .. n + a + b]"
  proof (cases "b = 0")
    case True
    then show ?thesis by simp
  next
    case False
    with assms have "n + 1 \<le> n + a + 1" "n + a + 1 \<le> n + a + b" by simp_all
    from upto_split1[OF this] show ?thesis by simp
  qed
  ultimately show ?thesis by simp
qed

lemma label_postorder_postorder:
  "postorder (fst (label_postorder t n)) = [n + 1 .. n + int (size t)]"
proof (induction t arbitrary: n)
  case Leaf
  then show ?case by simp
next
  case (Node l a r)
  let ?a = "int (size l)" and ?b = "int (size r)"
  have c1: "snd (label_postorder l n) = n + ?a"
    by (rule label_postorder_counter)
  have c2: "snd (label_postorder r (n + ?a)) = n + ?a + ?b"
    by (rule label_postorder_counter)
  have "postorder (fst (label_postorder (Node l a r) n))
      = [n + 1 .. n + ?a] @ [n + ?a + 1 .. n + ?a + ?b] @ [n + ?a + ?b + 1]"
    using Node.IH(1)[of n] Node.IH(2)[of "n + ?a"] c1 c2
    by (simp add: split_beta Let_def)
  also have "\<dots> = [n + 1 .. n + ?a + ?b + 1]"
    by (rule upto_split3[symmetric]) simp_all
  also have "n + ?a + ?b + 1 = n + int (size (Node l a r))"
    by simp
  finally show ?case .
qed

lemma size_perfect_tree: "int (size (perfect_tree k)) = 2 ^ k - 1"
  by (induction k) auto

lemma ptree_0: "ptree 0 n = Leaf"
  by (simp add: ptree_def)

lemma ptree_Suc:
  "ptree (Suc k) n = Node (ptree k n) (n + 2 ^ Suc k - 1) (ptree k (n + 2 ^ k - 1))"
proof -
  have c1: "snd (label_postorder (perfect_tree k) n) = n + 2 ^ k - 1"
    using label_postorder_counter[of "perfect_tree k" n] by (simp add: size_perfect_tree)
  have c2: "snd (label_postorder (perfect_tree k) (n + 2 ^ k - 1)) = n + 2 ^ Suc k - 2"
    using label_postorder_counter[of "perfect_tree k" "n + 2 ^ k - 1"]
    by (simp add: size_perfect_tree)
  show ?thesis
    unfolding ptree_def perfect_tree.simps label_postorder.simps Let_def split_beta c1 c2
    by simp
qed

lemma root_label_ptree:
  "root_label (ptree k n) = (if k = 0 then None else Some (n + 2 ^ k - 1))"
  by (cases k) (simp_all add: ptree_0 ptree_Suc)

lemma parent_in_ptree_bounds:
  "parent_in (ptree k n) x = Some p \<Longrightarrow> n < x \<and> x < p \<and> p \<le> n + 2 ^ k - 1"
proof (induction k arbitrary: n)
  case 0
  then show ?case by (simp add: ptree_0)
next
  case (Suc k)
  show ?case
  proof (cases "root_label (ptree k n) = Some x \<or> root_label (ptree k (n + 2 ^ k - 1)) = Some x")
    case True
    with Suc.prems have "p = n + 2 ^ Suc k - 1" by (simp add: ptree_Suc)
    moreover from True have "0 < k \<and> (x = n + 2 ^ k - 1 \<or> x = n + 2 ^ Suc k - 2)"
      by (auto simp: root_label_ptree split: if_splits)
    moreover have "(1::int) \<le> 2 ^ k" by simp
    moreover have "0 < k \<Longrightarrow> (2::int) \<le> 2 ^ k" by (cases k) simp_all
    ultimately show ?thesis by auto
  next
    case False
    note nroot = this
    show ?thesis
    proof (cases "parent_in (ptree k n) x")
      case (Some p')
      with nroot Suc.prems have "p' = p" by (simp add: ptree_Suc)
      with Some Suc.IH[of n] show ?thesis by auto
    next
      case None
      with nroot Suc.prems have "parent_in (ptree k (n + 2 ^ k - 1)) x = Some p"
        by (simp add: ptree_Suc)
      from Suc.IH[OF this] have "n + 2 ^ k - 1 < x \<and> x < p \<and> p \<le> n + 2 ^ k - 1 + 2 ^ k - 1" .
      moreover have "(1::int) \<le> 2 ^ k" by simp
      ultimately show ?thesis by auto
    qed
  qed
qed

lemma parent_in_ptree_defined:
  "n < x \<Longrightarrow> x < n + 2 ^ k - 1 \<Longrightarrow> \<exists>p. parent_in (ptree k n) x = Some p"
proof (induction k arbitrary: n)
  case 0
  then show ?case by simp
next
  case (Suc k)
  show ?case
  proof (cases "root_label (ptree k n) = Some x \<or> root_label (ptree k (n + 2 ^ k - 1)) = Some x")
    case True
    then show ?thesis by (simp add: ptree_Suc)
  next
    case False
    note nroot = this
    have k: "0 < k" using Suc.prems by (cases k) auto
    from nroot k have ne: "x \<noteq> n + 2 ^ k - 1" "x \<noteq> n + 2 ^ Suc k - 2"
      by (auto simp: root_label_ptree)
    show ?thesis
    proof (cases "x < n + 2 ^ k - 1")
      case True
      with Suc.IH[of n] Suc.prems obtain p where "parent_in (ptree k n) x = Some p" by blast
      with nroot show ?thesis by (simp add: ptree_Suc)
    next
      case False
      with ne Suc.prems have "n + 2 ^ k - 1 < x" "x < n + 2 ^ k - 1 + 2 ^ k - 1" by auto
      from Suc.IH[OF this] obtain p where "parent_in (ptree k (n + 2 ^ k - 1)) x = Some p" by blast
      with nroot show ?thesis by (simp add: ptree_Suc split: option.splits)
    qed
  qed
qed

subsection \<open>What the traversal writes\<close>

lemma set_on_first_visit_map:
  assumes "distinct (map fst d)"
  shows "set_on_first_visit node p d = map (\<lambda>(key, v). (key, if key = node \<and> v = - 1 then p else v)) d"
proof -
  have upd: "map_of d node = Some v \<Longrightarrow> distinct (map fst d) \<Longrightarrow>
      AList.update node p d = map (\<lambda>(key, v'). (key, if key = node then p else v')) d" for v d
  proof (induction d)
    case Nil
    then show ?case by simp
  next
    case (Cons a d)
    show ?case
    proof (cases "fst a = node")
      case True
      with Cons.prems have "node \<notin> fst ` set d" by auto
      then have "map (\<lambda>(key, v'). (key, if key = node then p else v')) d = d"
        by (induction d) auto
      with True show ?thesis by (cases a) simp
    next
      case False
      with Cons show ?thesis by (cases a) auto
    qed
  qed
  have same: "map_of d node \<noteq> Some (- 1) \<Longrightarrow> distinct (map fst d) \<Longrightarrow>
      map (\<lambda>(key, v). (key, if key = node \<and> v = - 1 then p else v)) d = d" for d
  proof (induction d)
    case Nil
    then show ?case by simp
  next
    case (Cons a d)
    show ?case
    proof (cases "fst a = node")
      case True
      with Cons.prems have "node \<notin> fst ` set d" by auto
      then have "map (\<lambda>(key, v). (key, if key = node \<and> v = - 1 then p else v)) d = d"
        by (induction d) auto
      with True Cons.prems show ?thesis by (cases a) auto
    next
      case False
      with Cons show ?thesis by (cases a) auto
    qed
  qed
  show ?thesis
  proof (cases "map_of d node = Some (- 1)")
    case True
    then have "od_contains d node"
      by (auto simp: od_contains_def dest: map_of_SomeD intro: rev_image_eqI)
    with True have "set_on_first_visit node p d = AList.update node p d"
      by (simp add: set_on_first_visit_def od_get_def od_set_def)
    also have "\<dots> = map (\<lambda>(key, v'). (key, if key = node then p else v')) d"
      using upd[OF True assms] .
    also have "\<dots> = map (\<lambda>(key, v). (key, if key = node \<and> v = - 1 then p else v)) d"
      using True assms
      by (auto simp: map_of_eq_Some_iff dest: eq_key_imp_eq_value)
    finally show ?thesis .
  next
    case False
    then show ?thesis using same[OF False assms] by (simp add: set_on_first_visit_def od_get_def)
  qed
qed

lemma hit_0: "hit 0 off key = - 1"
  by (simp add: hit_def ptree_0)

lemma hit_pos:
  assumes "0 \<le> off" "hit k off key \<noteq> - 1"
  shows "off < hit k off key \<and> key < hit k off key"
proof (cases "parent_in (ptree k off) key")
  case None
  with assms show ?thesis by (simp add: hit_def split: if_splits)
next
  case (Some p)
  from parent_in_ptree_bounds[OF Some] Some show ?thesis by (simp add: hit_def)
qed

lemma hit_Suc:
  assumes "0 \<le> off"
  shows "hit (Suc k) off key =
     (if key = off + (2 ^ k - 1) \<or> key = off + (2 ^ k - 1) + (2 ^ k - 1)
      then off + (2 ^ k - 1) + (2 ^ k - 1) + 1
      else if hit k off key \<noteq> - 1 then hit k off key
      else hit k (off + (2 ^ k - 1)) key)"
proof (cases k)
  case 0
  then show ?thesis by (simp add: hit_def ptree_Suc ptree_0)
next
  case (Suc j)
  then have k: "0 < k" by simp
  have two: "(2::int) \<le> 2 ^ k" using Suc by simp
  let ?left = "off + (2 ^ k - 1)"
  have lr: "off + 2 ^ k - 1 = ?left" by simp
  show ?thesis
  proof (cases "key = ?left \<or> key = ?left + (2 ^ k - 1)")
    case True
    with k show ?thesis
      by (auto simp: hit_def ptree_Suc root_label_ptree)
  next
    case False
    note nroot = this
    show ?thesis
    proof (cases "parent_in (ptree k off) key")
      case (Some p)
      with parent_in_ptree_bounds[OF Some] assms have "hit k off key = p" "p \<noteq> - 1"
        by (auto simp: hit_def)
      with nroot k Some show ?thesis
        by (auto simp: hit_def ptree_Suc root_label_ptree)
    next
      case None
      note noleft = this
      show ?thesis
      proof (cases "key = off")
        case True
        have "parent_in (ptree k ?left) key = None"
        proof (rule ccontr)
          assume "parent_in (ptree k ?left) key \<noteq> None"
          then obtain p where "parent_in (ptree k ?left) key = Some p" by auto
          from parent_in_ptree_bounds[OF this] True two show False by simp
        qed
        with nroot k noleft True assms show ?thesis
          by (auto simp: hit_def ptree_Suc root_label_ptree lr)
      next
        case False
        with nroot k noleft assms show ?thesis
          by (auto simp: hit_def ptree_Suc root_label_ptree lr split: option.splits)
      qed
    qed
  qed
qed

lemma dfs_unfold:
  "1 \<le> s \<Longrightarrow> dfs s off d =
     dfs (s div 2) (off + s div 2)
       (dfs (s div 2) off
          (set_on_first_visit (off + s div 2 + s div 2) (off + s div 2 + s div 2 + 1)
             (set_on_first_visit (off + s div 2) (off + s div 2 + s div 2 + 1) d)))"
  by (subst dfs.simps) (simp add: Let_def drop_bit_eq_div)

lemma dfs_base: "s < 1 \<Longrightarrow> dfs s off d = d"
  by (subst dfs.simps) simp

lemma half_size: "((2::int) ^ Suc k - 1) div 2 = 2 ^ k - 1"
proof -
  have "((2::int) ^ Suc k - 1) = 1 + 2 * (2 ^ k - 1)" by simp
  then show ?thesis by (metis (no_types) add.commute div_mult_self2 div_by_1 one_div_two_eq_zero zero_neq_numeral add_0 mult.commute nonzero_mult_div_cancel_left)
qed

lemma dfs_char:
  "0 \<le> off \<Longrightarrow> distinct (map fst d) \<Longrightarrow>
   dfs (2 ^ k - 1) off d = map (\<lambda>(key, v). (key, if v = - 1 then hit k off key else v)) d"
proof (induction k arbitrary: off d)
  case 0
  have "map (\<lambda>(key, v). (key, if v = - 1 then hit 0 off key else v)) d = d"
    by (induction d) (auto simp: hit_0)
  then show ?case by (simp add: dfs_base)
next
  case (Suc k)
  let ?h = "(2::int) ^ k - 1"
  let ?left = "off + ?h" and ?right = "off + ?h + ?h" and ?parent = "off + ?h + ?h + 1"
  let ?f1 = "\<lambda>(key, v). (key, if key = ?left \<and> v = - 1 then ?parent else v)"
  let ?f2 = "\<lambda>(key, v). (key, if key = ?right \<and> v = - 1 then ?parent else v)"
  let ?g1 = "\<lambda>(key, v). (key, if v = - 1 then hit k off key else v)"
  let ?g2 = "\<lambda>(key, v). (key, if v = - 1 then hit k ?left key else v)"
  have h0: "0 \<le> ?h" by simp
  have "(1::int) \<le> 2 ^ k" by simp
  then have s1: "(1::int) \<le> 2 ^ Suc k - 1" unfolding power_Suc by linarith
  have keys: "map fst (map (\<lambda>(key, v). (key, F key v)) xs) = map fst xs" for F and xs :: "(int \<times> int) list"
    by (induction xs) auto
  have d1: "set_on_first_visit ?left ?parent d = map ?f1 d"
    using Suc.prems(2) by (rule set_on_first_visit_map)
  have dist1: "distinct (map fst (map ?f1 d))"
    using Suc.prems(2) by (simp only: keys)
  have d2: "set_on_first_visit ?right ?parent (map ?f1 d) = map ?f2 (map ?f1 d)"
    using dist1 by (rule set_on_first_visit_map)
  have dist2: "distinct (map fst (map ?f2 (map ?f1 d)))"
    using Suc.prems(2) by (simp only: keys)
  have d3: "dfs ?h off (map ?f2 (map ?f1 d)) = map ?g1 (map ?f2 (map ?f1 d))"
    using Suc.prems(1) dist2 by (rule Suc.IH)
  have dist3: "distinct (map fst (map ?g1 (map ?f2 (map ?f1 d))))"
    using Suc.prems(2) by (simp only: keys)
  have left0: "0 \<le> ?left" using Suc.prems(1) h0 by simp
  have d4: "dfs ?h ?left (map ?g1 (map ?f2 (map ?f1 d)))
      = map ?g2 (map ?g1 (map ?f2 (map ?f1 d)))"
    using left0 dist3 by (rule Suc.IH)
  have "dfs (2 ^ Suc k - 1) off d = map ?g2 (map ?g1 (map ?f2 (map ?f1 d)))"
    unfolding dfs_unfold[OF s1] half_size d1 d2 d3 d4 ..
  also have "\<dots> = map (\<lambda>(key, v). (key, if v = - 1 then hit (Suc k) off key else v)) d"
  proof -
    let ?t = "\<lambda>(key, v). (key, if v = - 1 then hit (Suc k) off key else v)"
    have pw: "?g2 (?g1 (?f2 (?f1 (key, v)))) = ?t (key, v)"
      for key v
    proof (cases "v = - 1")
      case False
      then show ?thesis by simp
    next
      case True
      have pne: "?parent \<noteq> - 1" using Suc.prems(1) h0 by linarith
      show ?thesis
      proof (cases "key = ?left \<or> key = ?right")
        case True
        with \<open>v = - 1\<close> pne show ?thesis
          by (auto simp: hit_Suc[OF Suc.prems(1)])
      next
        case False
        with \<open>v = - 1\<close> show ?thesis
          by (auto simp: hit_Suc[OF Suc.prems(1)])
      qed
    qed
    have "map ?g2 (map ?g1 (map ?f2 (map ?f1 d))) = map (\<lambda>x. ?g2 (?g1 (?f2 (?f1 x)))) d"
      unfolding map_map o_def ..
    also have "\<dots> = map ?t d"
    proof (rule list.map_cong0)
      fix x assume "x \<in> set d"
      obtain key v where x: "x = (key, v)" by (cases x)
      show "?g2 (?g1 (?f2 (?f1 x))) = ?t x" unfolding x by (rule pw)
    qed
    finally show ?thesis .
  qed
  finally show ?case .
qed

subsection \<open>The dictionary of queries and the result list\<close>

lemma set_first_occurrences: "set (first_occurrences xs) = set xs"
  by (induction xs) auto

lemma distinct_first_occurrences: "distinct (first_occurrences xs)"
  by (induction xs) (auto simp: set_first_occurrences)

lemma first_occurrences_distinct: "distinct xs \<Longrightarrow> first_occurrences xs = xs"
proof (induction xs)
  case Nil
  then show ?case by simp
next
  case (Cons x xs)
  then have "filter (\<lambda>y. y \<noteq> x) xs = xs"
    by (auto intro: filter_True)
  with Cons show ?case by simp
qed

lemma update_fresh_keys:
  "AList.update x v (map (\<lambda>k. (k, v)) ks) =
     map (\<lambda>k. (k, v)) (if x \<in> set ks then ks else ks @ [x])"
  by (induction ks) auto

lemma fold_od_set:
  "fold (\<lambda>converter d. od_set d converter (- 1)) q (map (\<lambda>k. (k, - 1)) ks) =
     map (\<lambda>k. (k, - 1)) (ks @ filter (\<lambda>x. x \<notin> set ks) (first_occurrences q))"
proof (induction q arbitrary: ks)
  case Nil
  then show ?case by simp
next
  case (Cons x xs)
  show ?case
  proof (cases "x \<in> set ks")
    case True
    then have "filter (\<lambda>y. y \<notin> set ks) (filter (\<lambda>y. y \<noteq> x) (first_occurrences xs))
        = filter (\<lambda>y. y \<notin> set ks) (first_occurrences xs)"
      by (auto intro: filter_cong)
    with True Cons.IH[of ks] show ?thesis
      by (simp add: od_set_def update_fresh_keys)
  next
    case False
    have "filter (\<lambda>y. y \<notin> set (ks @ [x])) (first_occurrences xs)
        = filter (\<lambda>y. y \<notin> set ks) (filter (\<lambda>y. y \<noteq> x) (first_occurrences xs))"
      by (auto intro: filter_cong)
    with False Cons.IH[of "ks @ [x]"] show ?thesis
      by (simp add: od_set_def update_fresh_keys)
  qed
qed

lemma od_init_eq: "od_init q = map (\<lambda>k. (k, - 1)) (first_occurrences q)"
  using fold_od_set[of q "[]"] by (simp add: od_init_def)

lemma float_overflow_bound_pos: "0 < float_overflow_bound"
  by (simp add: float_overflow_bound_def)

lemma solution_char:
  "ion_flux_solution h q =
     (if h \<le> - float_overflow_bound then Inl OverflowError
      else Inr (map (\<lambda>key. if h < 0 then - 1 else hit (nat h) 0 key) (first_occurrences q)))"
proof (cases "h < 0")
  case True
  then show ?thesis
    by (simp add: ion_flux_solution_def od_init_eq od_values_def comp_def)
next
  case False
  have "distinct (map fst (od_init q))"
    by (simp add: od_init_eq comp_def distinct_first_occurrences)
  from dfs_char[OF _ this, of 0 "nat h"] False float_overflow_bound_pos show ?thesis
    by (simp add: ion_flux_solution_def od_values_def od_init_eq comp_def)
qed

lemma solution_returns:
  "- float_overflow_bound < h \<Longrightarrow>
   ion_flux_solution h q =
     Inr (map (\<lambda>key. if h < 0 then - 1 else hit (nat h) 0 key) (first_occurrences q))"
  by (simp add: solution_char)

lemma hit_parent:
  "key \<noteq> off \<Longrightarrow> hit k off key = (case parent_in (ptree k off) key of Some p \<Rightarrow> p | None \<Rightarrow> - 1)"
  by (simp add: hit_def split: option.splits)

lemma converter_tree_ptree: "converter_tree h = ptree h 0"
  by (simp add: converter_tree_def ptree_def)

text \<open>
  The reference tree carries the labels \<open>1, \<dots>, 2 ^ h - 1\<close> in post-order.
\<close>

lemma postorder_converter_tree: "postorder (converter_tree h) = [1 .. 2 ^ h - 1]"
  using label_postorder_postorder[of "perfect_tree h" 0]
  by (simp add: converter_tree_def size_perfect_tree)

lemma parent_in_None_iff:
  "parent_in (converter_tree h) x = None \<longleftrightarrow> x < 1 \<or> 2 ^ h - 1 \<le> x"
proof
  assume "parent_in (converter_tree h) x = None"
  with parent_in_ptree_defined[of 0 x h] show "x < 1 \<or> 2 ^ h - 1 \<le> x"
    by (fastforce simp: converter_tree_ptree)
next
  assume r: "x < 1 \<or> 2 ^ h - 1 \<le> x"
  show "parent_in (converter_tree h) x = None"
  proof (rule ccontr)
    assume "parent_in (converter_tree h) x \<noteq> None"
    then obtain p where "parent_in (ptree h 0) x = Some p"
      by (auto simp: converter_tree_ptree)
    from parent_in_ptree_bounds[OF this] r show False by auto
  qed
qed

subsection \<open>Claims about the parent labels\<close>

text \<open>
  Claim C7, amended. For every height \<open>h \<ge> 1\<close> and every list of queried labels that does
  not contain 0, the result lists, for the distinct queried labels in the order of their first
  occurrence, the post-order label of the parent of the node in the perfect tree of height
  \<open>h\<close>, and the sentinel \<open>-1\<close> where the tree has no parent for the label; and the tree has
  no parent for a label exactly when it is the root \<open>2 ^ h - 1\<close>, below 1 or above
  \<open>2 ^ h - 1\<close>.
\<close>

theorem ancestor_labels_parent:
  assumes "1 \<le> h" and "0 \<notin> set q"
  shows "ion_flux_solution h q =
           Inr (map (\<lambda>x. case parent_in (converter_tree (nat h)) x of Some p \<Rightarrow> p | None \<Rightarrow> - 1)
                  (first_occurrences q))
         \<and> (\<forall>x. parent_in (converter_tree (nat h)) x = None
                \<longleftrightarrow> x = 2 ^ nat h - 1 \<or> x < 1 \<or> 2 ^ nat h - 1 < x)"
proof
  have "(if h < 0 then - 1 else hit (nat h) 0 key) =
        (case parent_in (converter_tree (nat h)) key of Some p \<Rightarrow> p | None \<Rightarrow> - 1)"
    if "key \<in> set (first_occurrences q)" for key
  proof -
    from that assms(2) have "key \<noteq> 0" by (auto simp: set_first_occurrences)
    with assms(1) show ?thesis by (simp add: hit_parent converter_tree_ptree)
  qed
  then have "map (\<lambda>key. if h < 0 then - 1 else hit (nat h) 0 key) (first_occurrences q) =
           map (\<lambda>x. case parent_in (converter_tree (nat h)) x of Some p \<Rightarrow> p | None \<Rightarrow> - 1)
             (first_occurrences q)"
    by (intro map_cong refl)
  moreover have "- float_overflow_bound < h"
    using assms(1) float_overflow_bound_pos by simp
  ultimately show "ion_flux_solution h q =
           Inr (map (\<lambda>x. case parent_in (converter_tree (nat h)) x of Some p \<Rightarrow> p | None \<Rightarrow> - 1)
                  (first_occurrences q))"
    by (simp add: solution_returns)
next
  show "\<forall>x. parent_in (converter_tree (nat h)) x = None
                \<longleftrightarrow> x = 2 ^ nat h - 1 \<or> x < 1 \<or> 2 ^ nat h - 1 < x"
    unfolding parent_in_None_iff by auto
qed

theorem ancestor_labels_parent_witness:
  "(1::int) \<le> 3 \<and> 0 \<notin> set [1, 4, 7 :: int] \<and> ion_flux_solution 3 [1, 4, 7] = Inr [3, 6, - 1]"
proof -
  have e: "map (\<lambda>x. case parent_in (converter_tree (nat 3)) x of Some p \<Rightarrow> p | None \<Rightarrow> - 1)
             (first_occurrences [1, 4, 7]) = [3, 6, - 1]"
    by code_simp
  have "ion_flux_solution 3 [1, 4, 7] = Inr [3, 6, - 1]"
    using ancestor_labels_parent[of 3 "[1, 4, 7]"] unfolding e by simp
  then show ?thesis by simp
qed

text \<open>
  Claim C7 as stated (the sentinel for every label outside \<open>1, \<dots>, 2 ^ h - 1\<close>) fails for
  the label 0: the call for the leftmost leaf has \<^verbatim>\<open>leftNode = offset = 0\<close> and records
  1 as the parent of 0.
\<close>

theorem label_zero_counterexample:
  "ion_flux_solution 3 [0] = Inr [1] \<and> ion_flux_solution 3 [0] \<noteq> Inr [- 1]"
  by code_simp

lemma children_in_ptree_bounds:
  "children_in (ptree k n) p = Some c \<Longrightarrow> n < p \<and> p \<le> n + 2 ^ k - 1"
proof (induction k arbitrary: n c)
  case 0
  then show ?case by (simp add: ptree_0)
next
  case (Suc k)
  have one: "(1::int) \<le> 2 ^ k" by simp
  show ?case
  proof (cases "p = n + 2 ^ Suc k - 1")
    case True
    with one show ?thesis unfolding power_Suc by linarith
  next
    case False
    note nroot = this
    show ?thesis
    proof (cases "children_in (ptree k n) p")
      case (Some c')
      from Suc.IH[OF Some] one show ?thesis by auto
    next
      case None
      with nroot Suc.prems have "children_in (ptree k (n + 2 ^ k - 1)) p = Some c"
        by (simp add: ptree_Suc)
      from Suc.IH[OF this] one show ?thesis by auto
    qed
  qed
qed

lemma parent_in_ptree_above:
  "x \<le> n \<or> n + 2 ^ k - 1 \<le> x \<Longrightarrow> parent_in (ptree k n) x = None"
  using parent_in_ptree_bounds[of k n x] by (cases "parent_in (ptree k n) x") auto

lemma children_in_ptree_outside:
  "p \<le> n \<or> n + 2 ^ k - 1 < p \<Longrightarrow> children_in (ptree k n) p = None"
  using children_in_ptree_bounds[of k n p] by (cases "children_in (ptree k n) p") auto

lemma parent_in_ptree_children:
  "parent_in (ptree k n) x = Some p \<Longrightarrow>
   \<exists>l r. children_in (ptree k n) p = Some (l, r) \<and> (x = l \<or> x = r) \<and> l \<noteq> r
      \<and> parent_in (ptree k n) l = Some p \<and> parent_in (ptree k n) r = Some p"
proof (induction k arbitrary: n)
  case 0
  then show ?case by (simp add: ptree_0)
next
  case (Suc k)
  let ?left = "n + 2 ^ k - 1" and ?right = "n + 2 ^ Suc k - 2" and ?a = "n + 2 ^ Suc k - 1"
  have one: "(1::int) \<le> 2 ^ k" by simp
  show ?case
  proof (cases "root_label (ptree k n) = Some x \<or> root_label (ptree k ?left) = Some x")
    case True
    then have k: "0 < k" by (auto simp: root_label_ptree split: if_splits)
    then have two: "(2::int) \<le> 2 ^ k" by (cases k) simp_all
    from True Suc.prems have p: "p = ?a" by (simp add: ptree_Suc)
    from True k have x: "x = ?left \<or> x = ?right" by (auto simp: root_label_ptree)
    have "children_in (ptree (Suc k) n) p = Some (?left, ?right)"
      using k p by (simp add: ptree_Suc root_label_ptree)
    moreover have "?left \<noteq> ?right" using two by simp
    moreover have "parent_in (ptree (Suc k) n) ?left = Some p"
      using k p by (simp add: ptree_Suc root_label_ptree)
    moreover have "parent_in (ptree (Suc k) n) ?right = Some p"
      using k p by (simp add: ptree_Suc root_label_ptree)
    ultimately show ?thesis using x by blast
  next
    case False
    note nroot = this
    show ?thesis
    proof (cases "parent_in (ptree k n) x")
      case (Some p')
      with nroot Suc.prems have pp: "p' = p" by (simp add: ptree_Suc)
      from Some pp have "parent_in (ptree k n) x = Some p" by simp
      from Suc.IH[OF this] obtain l r where
        c: "children_in (ptree k n) p = Some (l, r)" and xlr: "x = l \<or> x = r" and ne: "l \<noteq> r"
        and pl: "parent_in (ptree k n) l = Some p" and pr: "parent_in (ptree k n) r = Some p"
        by blast
      from parent_in_ptree_bounds[OF pl] parent_in_ptree_bounds[OF pr] one
      have b: "l < ?left" "r < ?left" "p \<noteq> ?a" "l < ?right" "r < ?right" by auto
      have "children_in (ptree (Suc k) n) p = Some (l, r)"
        using c b by (simp add: ptree_Suc)
      moreover have "parent_in (ptree (Suc k) n) l = Some p"
        using pl b by (auto simp: ptree_Suc root_label_ptree)
      moreover have "parent_in (ptree (Suc k) n) r = Some p"
        using pr b by (auto simp: ptree_Suc root_label_ptree)
      ultimately show ?thesis using xlr ne by blast
    next
      case None
      with nroot Suc.prems have px: "parent_in (ptree k ?left) x = Some p"
        by (simp add: ptree_Suc)
      from Suc.IH[OF px] obtain l r where
        c: "children_in (ptree k ?left) p = Some (l, r)" and xlr: "x = l \<or> x = r" and ne: "l \<noteq> r"
        and pl: "parent_in (ptree k ?left) l = Some p" and pr: "parent_in (ptree k ?left) r = Some p"
        by blast
      from parent_in_ptree_bounds[OF pl] parent_in_ptree_bounds[OF pr] one
      have b: "?left < l" "?left < r" "p \<noteq> ?a" "l < ?right" "r < ?right" "?left < p" by auto
      have "children_in (ptree k n) p = None"
        using b by (intro children_in_ptree_outside) simp
      then have "children_in (ptree (Suc k) n) p = Some (l, r)"
        using c b by (simp add: ptree_Suc)
      moreover have "parent_in (ptree k n) l = None" "parent_in (ptree k n) r = None"
        using b by (auto intro!: parent_in_ptree_above)
      then have "parent_in (ptree (Suc k) n) l = Some p" "parent_in (ptree (Suc k) n) r = Some p"
        using pl pr b by (auto simp: ptree_Suc root_label_ptree)
      ultimately show ?thesis using xlr ne by blast
    qed
  qed
qed

lemma solution_single:
  "0 \<le> h \<Longrightarrow> ion_flux_solution h [x] = Inr [hit (nat h) 0 x]"
  using float_overflow_bound_pos by (simp add: solution_returns)

text \<open>
  Claim C8. Sibling symmetry: for every height \<open>h \<ge> 1\<close> and every label \<open>x\<close> of a node
  other than the root, if \<open>p\<close> is the parent computed for \<open>x\<close>, then \<open>p\<close> has two distinct
  children in the tree, \<open>x\<close> is one of them, and querying either child yields \<open>p\<close>.
\<close>

theorem sibling_symmetry:
  assumes "1 \<le> h" and "1 \<le> x" and "x < 2 ^ nat h - 1" and "ion_flux_solution h [x] = Inr [p]"
  shows "\<exists>l r. children_in (converter_tree (nat h)) p = Some (l, r)
            \<and> (x = l \<or> x = r) \<and> l \<noteq> r
            \<and> ion_flux_solution h [l] = Inr [p] \<and> ion_flux_solution h [r] = Inr [p]"
proof -
  have h0: "0 \<le> h" using assms(1) by simp
  from assms(2,3) parent_in_ptree_defined[of 0 x "nat h"]
  obtain p' where p': "parent_in (ptree (nat h) 0) x = Some p'" by auto
  with assms(2,4) h0 have "p' = p" by (simp add: solution_single hit_def)
  with p' have "parent_in (ptree (nat h) 0) x = Some p" by simp
  from parent_in_ptree_children[OF this] obtain l r where
    c: "children_in (ptree (nat h) 0) p = Some (l, r)" and xlr: "x = l \<or> x = r" and ne: "l \<noteq> r"
    and pl: "parent_in (ptree (nat h) 0) l = Some p" and pr: "parent_in (ptree (nat h) 0) r = Some p"
    by blast
  have "ion_flux_solution h [l] = Inr [p]" "ion_flux_solution h [r] = Inr [p]"
    using pl pr h0 by (simp_all add: solution_single hit_def)
  with c xlr ne show ?thesis unfolding converter_tree_ptree by blast
qed

theorem sibling_symmetry_witness:
  "(1::int) \<le> 3 \<and> (1::int) \<le> 4 \<and> (4::int) < 2 ^ nat 3 - 1 \<and> ion_flux_solution 3 [4] = Inr [6]
   \<and> (\<exists>l r. children_in (converter_tree (nat 3)) 6 = Some (l, r)
            \<and> (4 = l \<or> 4 = r) \<and> l \<noteq> r
            \<and> ion_flux_solution 3 [l] = Inr [6] \<and> ion_flux_solution 3 [r] = Inr [6])"
proof -
  have s: "ion_flux_solution 3 [4] = Inr [6]" by code_simp
  have "(4::int) < 2 ^ nat 3 - 1" by simp
  from sibling_symmetry[OF _ _ this s] s show ?thesis by simp
qed

text \<open>
  Claim C9. The result has exactly one entry per distinct queried label, in the order of
  first occurrence: each entry is the answer to the distinct label at its position queried
  alone, the number of entries is the number of distinct labels, and the result is shorter
  than the query list exactly when the query list has a duplicate. This holds for every
  height at which the function returns; for the remaining heights, \<open>h \<le> - (2 ^ 1024 - 2 ^ 970)\<close>,
  it raises \<^verbatim>\<open>OverflowError\<close> before the queries are looked at.
\<close>

theorem duplicate_queries:
  "(h \<le> - float_overflow_bound \<and> ion_flux_solution h q = Inl OverflowError)
   \<or> (\<exists>out. ion_flux_solution h q = Inr out
        \<and> list_all2 (\<lambda>x p. ion_flux_solution h [x] = Inr [p]) (first_occurrences q) out
        \<and> length out = card (set q)
        \<and> (length out < length q) = (\<not> distinct q))"
proof (cases "h \<le> - float_overflow_bound")
  case True
  then show ?thesis by (simp add: solution_char)
next
  case False
  let ?f = "\<lambda>key. if h < 0 then - 1 else hit (nat h) 0 key"
  let ?out = "map ?f (first_occurrences q)"
  have r: "ion_flux_solution h ys = Inr (map ?f (first_occurrences ys))" for ys
    using False by (simp add: solution_char)
  have "list_all2 (\<lambda>x p. ion_flux_solution h [x] = Inr [p]) (first_occurrences q) ?out"
    by (simp add: list_all2_conv_all_nth r)
  moreover have "length ?out = card (set q)"
    using distinct_card[OF distinct_first_occurrences, of q]
    by (simp add: set_first_occurrences)
  moreover have "(card (set q) < length q) = (\<not> distinct q)"
  proof (cases "distinct q")
    case True
    then show ?thesis by (simp add: distinct_card)
  next
    case False
    then have "card (set q) \<noteq> length q" using card_distinct[of q] by blast
    with card_length[of q] False show ?thesis by simp
  qed
  ultimately have "ion_flux_solution h q = Inr ?out
        \<and> list_all2 (\<lambda>x p. ion_flux_solution h [x] = Inr [p]) (first_occurrences q) ?out
        \<and> length ?out = card (set q)
        \<and> (length ?out < length q) = (\<not> distinct q)"
    using r[of q] by simp
  then show ?thesis by blast
qed

theorem duplicate_queries_witness:
  "ion_flux_solution 3 [1, 4, 1] = Inr [3, 6] \<and> \<not> distinct [1, 4, 1 :: int]"
proof -
  have f: "first_occurrences [1, 4, 1 :: int] = [1, 4]" by simp
  have a: "ion_flux_solution 3 [1] = Inr [3]" by code_simp
  have b: "ion_flux_solution 3 [4] = Inr [6]" by code_simp
  have n: "\<not> (3::int) \<le> - float_overflow_bound"
    using float_overflow_bound_pos by simp
  from duplicate_queries[of 3 "[1, 4, 1]"] n obtain out where
    o: "ion_flux_solution 3 [1, 4, 1] = Inr out"
    and l: "list_all2 (\<lambda>x p. ion_flux_solution 3 [x] = Inr [p]) [1, 4] out"
    unfolding f by blast
  from l obtain p1 p2 where "out = [p1, p2]"
    "ion_flux_solution 3 [1] = Inr [p1]" "ion_flux_solution 3 [4] = Inr [p2]"
    by (auto simp: list_all2_Cons1)
  with a b have "out = [3, 6]" by simp
  with o show ?thesis by simp
qed

text \<open>
  Claim C10. Every parent label that is returned (every entry other than the sentinel) is
  strictly greater than the label it answers; the entries answer the distinct queried labels
  in the order of first occurrence. This holds for every height at which the function
  returns; for \<open>h \<le> - (2 ^ 1024 - 2 ^ 970)\<close> it raises \<^verbatim>\<open>OverflowError\<close> and returns no label.
\<close>

theorem parent_label_greater:
  "(h \<le> - float_overflow_bound \<and> ion_flux_solution h q = Inl OverflowError)
   \<or> (\<exists>out. ion_flux_solution h q = Inr out
        \<and> list_all2 (\<lambda>x p. p \<noteq> - 1 \<longrightarrow> x < p) (first_occurrences q) out)"
proof (cases "h \<le> - float_overflow_bound")
  case True
  then show ?thesis by (simp add: solution_char)
next
  case False
  note ret = this
  show ?thesis
  proof (cases "h < 0")
    case True
    with ret show ?thesis by (simp add: solution_char list_all2_conv_all_nth)
  next
    case False
    with ret show ?thesis
      using hit_pos[of 0 "nat h"]
      by (simp add: solution_char list_all2_conv_all_nth)
  qed
qed

theorem parent_label_greater_witness:
  "ion_flux_solution 3 [1, 4, 7] = Inr [3, 6, - 1] \<and> (1::int) < 3 \<and> (4::int) < 6"
proof -
  have s: "ion_flux_solution 3 [1, 4, 7] = Inr [3, 6, - 1]" by code_simp
  have f: "first_occurrences [1, 4, 7 :: int] = [1, 4, 7]" by simp
  from parent_label_greater[of 3 "[1, 4, 7]"] show ?thesis unfolding s f by simp
qed

subsection \<open>Doomsday Fuel\<close>

lemma guard_returns_one_one:
  "length m \<le> 1 \<or> sum_list (m ! 0) = 0 \<Longrightarrow> doomsday_fuel_solution lib m = Inr [1, 1]"
  by (auto simp: doomsday_fuel_solution_def)

text \<open>
  The example matrices of the source file, run with the library of exact rationals. This says
  what the pipeline computes when no rounding takes place; it does not say what the program
  returns with doubles.
\<close>

lemma exact_arithmetic_t1:
  "doomsday_fuel_solution exact_lib
     [[0, 2, 1, 0, 0], [0, 0, 0, 3, 4], [0, 0, 0, 0, 0], [0, 0, 0, 0, 0], [0, 0, 0, 0, 0]]
   = Inr [7, 6, 8, 21]"
  by code_simp

lemma exact_arithmetic_t2:
  "doomsday_fuel_solution exact_lib
     [[0, 1, 0, 0, 0, 1], [4, 0, 0, 3, 2, 0], [0, 0, 0, 0, 0, 0],
      [0, 0, 0, 0, 0, 0], [0, 0, 0, 0, 0, 0], [0, 0, 0, 0, 0, 0]]
   = Inr [0, 3, 2, 9, 14]"
  by code_simp

text \<open>
  Claim C4. If state 0 is terminal (row 0 sums to zero) or the matrix has a single row, the
  result is exactly \<open>[1, 1]\<close>, whatever the numeric library does.
\<close>

theorem start_terminal_or_single_state:
  assumes "length m = 1 \<or> (m \<noteq> [] \<and> sum_list (m ! 0) = 0)"
  shows "doomsday_fuel_solution lib m = Inr [1, 1]"
  using assms by (auto simp: doomsday_fuel_solution_def)

theorem start_terminal_or_single_state_witness:
  "doomsday_fuel_solution exact_lib [[3]] = Inr [1, 1]
   \<and> doomsday_fuel_solution exact_lib [[0, 0], [1, 1]] = Inr [1, 1]"
proof -
  have "doomsday_fuel_solution exact_lib [[3]] = Inr [1, 1]"
    by (rule start_terminal_or_single_state) simp
  moreover have "doomsday_fuel_solution exact_lib [[0, 0], [1, 1]] = Inr [1, 1]"
    by (rule start_terminal_or_single_state) simp
  ultimately show ?thesis by simp
qed

subsection \<open>Exceptions of the fuel computation\<close>

lemma split_cols_error:
  "\<forall>col \<in> set cols. col < length r \<Longrightarrow>
   split_cols lib absorbing r total_transitions cols = Inl e \<Longrightarrow> library_raises lib e"
proof (induction cols)
  case Nil
  then show ?case by simp
next
  case (Cons col cols)
  show ?case
  proof (cases "true_div lib (r ! col) total_transitions")
    case (Inl e')
    with Cons.prems have "e' = e" by simp
    with Inl show ?thesis unfolding library_raises_def by blast
  next
    case (Inr x)
    with Cons.prems have "split_cols lib absorbing r total_transitions cols = Inl e"
      by (auto split: sum.splits prod.splits if_splits)
    with Cons.IH Cons.prems(1) show ?thesis by simp
  qed
qed

lemma split_rows_error:
  assumes "rows_cover_columns m"
  shows "\<forall>row \<in> set rows. row < length m \<Longrightarrow>
         split_rows lib m absorbing rows = Inl e \<Longrightarrow> library_raises lib e"
proof (induction rows)
  case Nil
  then show ?case by simp
next
  case (Cons row rows)
  from Cons.prems(1) have rest: "\<forall>row \<in> set rows. row < length m" and row: "row < length m"
    by simp_all
  from row assms have cover: "\<forall>col \<in> set [0..<length m]. col < length (m ! row)"
    by (auto simp: rows_cover_columns_def list_all_length)
  show ?case
  proof (cases "row \<in> set absorbing")
    case True
    with Cons.prems(2) Cons.IH[OF rest] show ?thesis by simp
  next
    case False
    note transient = this
    show ?thesis
    proof (cases "float_of_int lib (sum_list (m ! row))")
      case (Inl e')
      with transient Cons.prems(2) have "e' = e" by simp
      with Inl show ?thesis unfolding library_raises_def by blast
    next
      case (Inr total_transitions)
      note total = this
      show ?thesis
      proof (cases "split_cols lib absorbing (m ! row) total_transitions [0..<length m]")
        case (Inl e')
        with transient total Cons.prems(2) have "e' = e" by simp
        with split_cols_error[OF cover Inl] show ?thesis by simp
      next
        case (Inr temp)
        with transient total Cons.prems(2) have "split_rows lib m absorbing rows = Inl e"
          by (auto split: sum.splits prod.splits)
        with Cons.IH[OF rest] show ?thesis by simp
      qed
    qed
  qed
qed

lemma split_matrix_error:
  "rows_cover_columns m \<Longrightarrow> split_matrix lib m = Inl e \<Longrightarrow> library_raises lib e"
  unfolding split_matrix_def by (rule split_rows_error) simp_all

lemma find_f_submatrix_error:
  "find_f_submatrix lib q = Inl e \<Longrightarrow> library_raises lib e"
  unfolding find_f_submatrix_def library_raises_def Let_def
  by (cases "np_subtract lib (np_identity lib (length q)) q") auto

lemma to_fractions_error:
  "to_fractions lib row = Inl e \<Longrightarrow> library_raises lib e"
proof (induction row)
  case Nil
  then show ?case by simp
next
  case (Cons num row)
  show ?case
  proof (cases "limit_denominator lib num")
    case (Inl e')
    with Cons.prems have "e' = e" by simp
    with Inl show ?thesis unfolding library_raises_def by blast
  next
    case (Inr fraction)
    with Cons.prems have "to_fractions lib row = Inl e" by (auto split: sum.splits)
    with Cons.IH show ?thesis by simp
  qed
qed

lemma to_fractions_denominators:
  "to_fractions lib row = Inr fractions \<Longrightarrow> d \<in> set (map snd fractions) \<Longrightarrow>
   \<exists>x n. limit_denominator lib x = Inr (n, d)"
proof (induction row arbitrary: fractions)
  case Nil
  then show ?case by simp
next
  case (Cons num row)
  from Cons.prems(1) obtain fraction rest where
    f: "limit_denominator lib num = Inr fraction" and r: "to_fractions lib row = Inr rest"
    and fr: "fractions = fraction # rest"
    by (auto split: sum.splits)
  show ?case
  proof (cases "d = snd fraction")
    case True
    with f have "limit_denominator lib num = Inr (fst fraction, d)" by simp
    then show ?thesis by blast
  next
    case False
    with Cons.prems(2) fr have "d \<in> set (map snd rest)" by simp
    with Cons.IH[OF r] show ?thesis by simp
  qed
qed

lemma euclid_loop_zero: "euclid_loop a b = 0 \<Longrightarrow> a = 0 \<and> b = 0"
proof (induction a b rule: euclid_loop.induct)
  case (1 temp_lcd temp_denom)
  show ?case
  proof (cases "temp_denom = 0")
    case True
    with "1.prems" show ?thesis by simp
  next
    case False
    with "1.prems" have "euclid_loop temp_denom (temp_lcd mod temp_denom) = 0" by simp
    with "1.IH"[OF False] False show ?thesis by simp
  qed
qed

lemma lcd_loop_error:
  "lcd_loop lcd denominators = Inl e \<Longrightarrow> e = ZeroDivisionError \<and> 0 \<in> set denominators"
proof (induction denominators arbitrary: lcd)
  case Nil
  then show ?case by simp
next
  case (Cons denom denominators)
  show ?case
  proof (cases "euclid_loop lcd denom = 0")
    case True
    with euclid_loop_zero[OF True] Cons.prems show ?thesis by (simp add: Let_def)
  next
    case False
    with Cons.prems have "lcd_loop (lcd div euclid_loop lcd denom * denom) denominators = Inl e"
      by (simp add: Let_def)
    with Cons.IH show ?thesis by auto
  qed
qed

lemma scale_loop_error:
  "scale_loop lib lcd fractions = Inl e \<Longrightarrow> library_raises lib e"
proof (induction fractions)
  case Nil
  then show ?case by simp
next
  case (Cons fraction fractions)
  obtain numerator denominator where fr: "fraction = (numerator, denominator)"
    by (cases fraction)
  show ?case
  proof (cases "int_true_div lib lcd denominator")
    case (Inl e')
    with Cons.prems fr have "e' = e" by simp
    with Inl show ?thesis unfolding library_raises_def by blast
  next
    case (Inr factor)
    with Cons.prems fr have "scale_loop lib lcd fractions = Inl e" by (auto split: sum.splits)
    with Cons.IH show ?thesis by simp
  qed
qed

lemma probabilities_error:
  assumes "probabilities lib row = Inl e"
  shows "library_caused lib e"
proof (cases "to_fractions lib row")
  case (Inl e')
  with assms have "e' = e" by (simp add: probabilities_def)
  with Inl to_fractions_error show ?thesis unfolding library_caused_def by blast
next
  case (Inr fractions)
  note fr = this
  show ?thesis
  proof (cases "lcd_loop 1 (map snd fractions)")
    case (Inl e')
    with fr assms have "e' = e" by (simp add: probabilities_def)
    with lcd_loop_error[OF Inl] have "e = ZeroDivisionError" "0 \<in> set (map snd fractions)"
      by simp_all
    with to_fractions_denominators[OF fr] show ?thesis unfolding library_caused_def by blast
  next
    case (Inr lcd)
    with fr assms have "scale_loop lib lcd fractions = Inl e"
      by (auto simp: probabilities_def split: sum.splits)
    from scale_loop_error[OF this] show ?thesis unfolding library_caused_def by blast
  qed
qed

text \<open>
  When every row is long enough for the column loop, each exception the function can end
  with is caused by the numeric library.
\<close>

lemma errors_come_from_library:
  assumes "rows_cover_columns m" and "doomsday_fuel_solution lib m = Inl e"
  shows "library_caused lib e"
proof -
  from assms(2) have guard: "\<not> length m \<le> 1" "sum_list (m ! 0) \<noteq> 0"
    by (auto simp: doomsday_fuel_solution_def split: if_splits)
  show ?thesis
  proof (cases "split_matrix lib m")
    case (Inl e')
    with guard assms(2) have "e' = e" by (simp add: doomsday_fuel_solution_def)
    with Inl split_matrix_error[OF assms(1)] show ?thesis unfolding library_caused_def by blast
  next
    case (Inr rq)
    obtain r q where rq: "rq = (r, q)" by (cases rq)
    note split = Inr[unfolded rq]
    show ?thesis
    proof (cases "find_f_submatrix lib q")
      case (Inl e')
      with guard split assms(2) have "e' = e" by (simp add: doomsday_fuel_solution_def)
      with Inl find_f_submatrix_error show ?thesis unfolding library_caused_def by blast
    next
      case (Inr f)
      note inv = this
      show ?thesis
      proof (cases "np_dot lib f r")
        case (Inl e')
        with guard split inv assms(2) have "e' = e" by (simp add: doomsday_fuel_solution_def)
        with Inl show ?thesis unfolding library_caused_def library_raises_def by blast
      next
        case (Inr fr)
        note dot = this
        show ?thesis
        proof (cases fr)
          case Nil
          with guard split inv dot assms(2) have "e = IndexError"
            by (simp add: doomsday_fuel_solution_def)
          with dot Nil show ?thesis unfolding library_caused_def by blast
        next
          case (Cons row0 rest)
          with guard split inv dot assms(2) have "probabilities lib row0 = Inl e"
            by (simp add: doomsday_fuel_solution_def)
          then show ?thesis by (rule probabilities_error)
        qed
      qed
    qed
  qed
qed

lemma inverse_error_propagates:
  assumes "1 < length m" and "sum_list (m ! 0) \<noteq> 0"
    and "split_matrix lib m = Inr (r, q)"
    and "np_subtract lib (np_identity lib (length q)) q = Inr d"
    and "np_linalg_inv lib d = Inl e"
  shows "doomsday_fuel_solution lib m = Inl e"
  using assms by (simp add: doomsday_fuel_solution_def find_f_submatrix_def)

subsection \<open>Chains that do not absorb\<close>

text \<open>
  Two chains that do not absorb. In the first, state 0 is terminal and states 1 and 2 only
  lead to each other. In the second, there is no terminal state at all: states 0 and 1 lead
  to each other.
\<close>

lemma closed_cycle_path:
  "path [[0, 0, 0], [0, 0, 1], [0, 1, 0]] i j \<Longrightarrow> i = 1 \<or> i = 2 \<Longrightarrow> j = 1 \<or> j = 2"
proof (induction rule: path.induct)
  case (path_refl i)
  then show ?case by simp
next
  case (path_step i j k)
  from path_step.hyps(1) path_step.prems have "j = 1 \<or> j = 2"
    by (auto simp: transition_def nth_Cons split: nat.splits)
  then show ?case by (rule path_step.IH)
qed

lemma closed_cycle_non_absorbing: "non_absorbing [[0, 0, 0], [0, 0, 1], [0, 1, 0]]"
proof -
  let ?m = "[[0, 0, 0], [0, 0, 1], [0, 1, 0 :: int]]"
  have "\<not> terminal_state ?m 1" by (simp add: terminal_state_def)
  moreover have "\<not> (\<exists>j < length ?m. terminal_state ?m j \<and> path ?m 1 j)"
  proof
    assume "\<exists>j < length ?m. terminal_state ?m j \<and> path ?m 1 j"
    then obtain j where j: "terminal_state ?m j" "path ?m 1 j" by blast
    from closed_cycle_path[OF j(2)] have "j = 1 \<or> j = 2" by simp
    with j(1) show False by (auto simp: terminal_state_def)
  qed
  ultimately show ?thesis unfolding non_absorbing_def by (intro exI[of _ 1]) simp
qed

lemma two_cycle_non_absorbing: "non_absorbing [[0, 1], [1, 0]]"
proof -
  let ?m = "[[0, 1], [1, 0 :: int]]"
  have "\<not> terminal_state ?m j" if "j < length ?m" for j
    using that by (cases j) (simp_all add: terminal_state_def)
  then have "\<not> terminal_state ?m 0 \<and> \<not> (\<exists>j < length ?m. terminal_state ?m j \<and> path ?m 0 j)"
    by auto
  then show ?thesis unfolding non_absorbing_def by (intro exI[of _ 0]) simp
qed

lemma two_cycle_result: "doomsday_fuel_solution exact_lib [[0, 1], [1, 0]] = Inl LinAlgError"
  by code_simp

text \<open>
  Claim C5 as stated (every matrix with a transient state that has no path to a terminal
  state makes the function signal an explicit non-absorbing-chain error) fails. On the first
  chain above the function returns \<open>[1, 1]\<close> and no error, with every library. On the second,
  whose start state is transient, the only error is the one the matrix inverse raises for the
  singular matrix \<open>I - Q\<close>, handed on unchanged; the numbers of this computation are 0, 1 and
  \<open>-1\<close>, which the library of exact rationals and doubles represent alike.
\<close>

theorem non_absorbing_counterexample:
  "non_absorbing [[0, 0, 0], [0, 0, 1], [0, 1, 0]]
   \<and> doomsday_fuel_solution exact_lib [[0, 0, 0], [0, 0, 1], [0, 1, 0]] = Inr [1, 1]
   \<and> non_absorbing [[0, 1], [1, 0]]
   \<and> doomsday_fuel_solution exact_lib [[0, 1], [1, 0]] = Inl LinAlgError"
  using closed_cycle_non_absorbing two_cycle_non_absorbing two_cycle_result
  by (simp add: doomsday_fuel_solution_def)

text \<open>
  Claim C5, amended. The function makes no absorption check and has no exception of its own
  for a chain that does not absorb. For every square matrix, absorbing or not, and every
  numeric library: each exception the function ends with is caused by the library (raised by
  one of its calls, or following from an empty product or a zero denominator it returned);
  and when the start state is transient and the library's matrix inverse raises on \<open>I - Q\<close>,
  the function ends with exactly that exception. So when no library call raises, the function
  returns a list, also for a chain that does not absorb.
\<close>

theorem no_absorption_check:
  assumes "square_matrix m"
  shows "(\<forall>e. doomsday_fuel_solution lib m = Inl e \<longrightarrow> library_caused lib e)
     \<and> (\<forall>r q d e. 1 < length m \<and> sum_list (m ! 0) \<noteq> 0
            \<and> split_matrix lib m = Inr (r, q)
            \<and> np_subtract lib (np_identity lib (length q)) q = Inr d
            \<and> np_linalg_inv lib d = Inl e
          \<longrightarrow> doomsday_fuel_solution lib m = Inl e)"
proof -
  from assms have "rows_cover_columns m"
    by (simp add: square_matrix_def rows_cover_columns_def list_all_iff)
  then show ?thesis
    using errors_come_from_library[of m lib] inverse_error_propagates[of m lib] by blast
qed

theorem no_absorption_check_witness:
  "square_matrix [[0, 1], [1, 0]] \<and> non_absorbing [[0, 1], [1, 0]]
   \<and> split_matrix exact_lib [[0, 1], [1, 0]] = Inr ([[], []], [[0, 1], [1, 0]])
   \<and> np_linalg_inv exact_lib [[1, - 1], [- 1, 1]] = Inl LinAlgError
   \<and> doomsday_fuel_solution exact_lib [[0, 1], [1, 0]] = Inl LinAlgError
   \<and> library_caused exact_lib LinAlgError"
proof -
  have sq: "square_matrix [[0, 1], [1, 0]]" by (simp add: square_matrix_def)
  have sp: "split_matrix exact_lib [[0, 1], [1, 0]] = Inr ([[], []], [[0, 1], [1, 0]])"
    by code_simp
  have sb: "np_subtract exact_lib (np_identity exact_lib (length [[0, 1], [1, 0 :: rat]]))
              [[0, 1], [1, 0]] = Inr [[1, - 1], [- 1, 1]]"
    by code_simp
  have iv: "np_linalg_inv exact_lib [[1, - 1], [- 1, 1]] = Inl LinAlgError"
    by code_simp
  from no_absorption_check[OF sq, of exact_lib] sp sb iv
  have r: "doomsday_fuel_solution exact_lib [[0, 1], [1, 0]] = Inl LinAlgError"
    by simp
  with no_absorption_check[OF sq, of exact_lib]
  have "library_caused exact_lib LinAlgError" by blast
  with sq two_cycle_non_absorbing sp iv r show ?thesis by simp
qed

subsection \<open>Input shapes\<close>






end
